theory Spec2Isabelle
  imports Main "HOL-Library.Word" "HOL-Library.Multiset"
begin

unbundle bit_operations_syntax

section \<open>PESC: pseudorandom encryption with shuffling and coding (pesc.c)\<close>

subsection \<open>Data model\<close>

text \<open>
  \<^verbatim>\<open>uint32_t\<close> is a 32-bit word and a \<^verbatim>\<open>char\<close> of the buffer an 8-bit word (only its
  value modulo 256 is ever observed). A \<^verbatim>\<open>size_t\<close> is a natural number below
  \<open>2 ^ 64\<close> (LP64); subtraction and addition on it wrap around, which is written out in
  \<open>size_sub\<close> and \<open>size_add\<close>. The global variable \<^verbatim>\<open>seed\<close> is passed in and returned.
  What C leaves undefined (a division by zero, an access outside an array) is an error
  value.
\<close>

type_synonym uint32_t = "32 word"
type_synonym byte = "8 word"

datatype error = DivisionByZero | OutOfBounds | UnsupportedChar

definition SIZE_MOD :: nat where
  "SIZE_MOD = 2 ^ 64"

definition size_sub :: "nat \<Rightarrow> nat \<Rightarrow> nat" where
  "size_sub a b = (a + SIZE_MOD - b mod SIZE_MOD) mod SIZE_MOD"

definition size_add :: "nat \<Rightarrow> nat \<Rightarrow> nat" where
  "size_add a b = (a + b) mod SIZE_MOD"

subsection \<open>The generator (lines 26-38)\<close>

definition RAND_MAX :: uint32_t where
  "RAND_MAX = 65534"

text \<open>
  Line 34 assigns the literal \<^verbatim>\<open>0F1F2F3F4\<close>, which lacks the \<^verbatim>\<open>x\<close> of a hexadecimal
  constant. It is read as the constant of line 28, \<^verbatim>\<open>0xF1F2F3F4\<close>, which has the same
  digits.
\<close>

definition ZERO_SEED :: uint32_t where
  "ZERO_SEED = 0xF1F2F3F4"

text \<open>Line 34: \<^verbatim>\<open>if(seed == 0) seed = 0F1F2F3F4;\<close>\<close>

definition zero_seed_guard :: "uint32_t \<Rightarrow> uint32_t" where
  "zero_seed_guard seed = (if seed = 0 then ZERO_SEED else seed)"

text \<open>
  Line 35: \<^verbatim>\<open>uint32_t v = 16807 * (seed % 127773) - 2836 * (seed / 127773);\<close>
  One operand of each product is a \<^verbatim>\<open>uint32_t\<close>, so all of it is unsigned 32-bit
  arithmetic.
\<close>

definition accumulator :: "uint32_t \<Rightarrow> uint32_t" where
  "accumulator seed = 16807 * (seed mod 127773) - 2836 * (seed div 127773)"

text \<open>
  Line 36: \<^verbatim>\<open>if (v < 0) v += 2147483647;\<close> The comparison is between a \<^verbatim>\<open>uint32_t\<close>
  and the constant 0 converted to it, the unsigned order of words.
\<close>

definition negative_test :: "uint32_t \<Rightarrow> bool" where
  "negative_test v = (v < 0)"

definition correct_negative :: "uint32_t \<Rightarrow> uint32_t" where
  "correct_negative v = (if negative_test v then v + 2147483647 else v)"

text \<open>
  \<^verbatim>\<open>random()\<close> returns the drawn value and the new value of \<^verbatim>\<open>seed\<close> (line 37:
  \<^verbatim>\<open>return ((seed = v) % ((uint32_t)RAND_MAX + 1));\<close>).
\<close>

definition random :: "uint32_t \<Rightarrow> uint32_t \<times> uint32_t" where
  "random seed =
     (let seed1 = zero_seed_guard seed;
          v = correct_negative (accumulator seed1)
      in (v mod (RAND_MAX + 1), v))"

text \<open>
  The generator as the specification words it: Schrage's step on integers, with
  2147483647 added to a negative value; the draw and the new Seed.
\<close>

definition random_spec :: "int \<Rightarrow> int \<times> int" where
  "random_spec seed =
     (let v = 16807 * (seed mod 127773) - 2836 * (seed div 127773);
          v' = (if v < 0 then v + 2147483647 else v)
      in (v' mod 65535, v'))"

text \<open>The values of \<open>k\<close> successive draws, and the seed they leave.\<close>

fun draws :: "nat \<Rightarrow> uint32_t \<Rightarrow> uint32_t list" where
  "draws 0 seed = []"
| "draws (Suc k) seed = fst (random seed) # draws k (snd (random seed))"

fun seed_after :: "nat \<Rightarrow> uint32_t \<Rightarrow> uint32_t" where
  "seed_after 0 seed = seed"
| "seed_after (Suc k) seed = seed_after k (snd (random seed))"

subsection \<open>Arrays\<close>

text \<open>
  A read of \<^verbatim>\<open>a[i]\<close>: inside the array its element, outside an error.
\<close>

definition rd :: "'a list \<Rightarrow> nat \<Rightarrow> error + 'a" where
  "rd a i = (if i < length a then Inr (a ! i) else Inl OutOfBounds)"

text \<open>
  The three statements \<^verbatim>\<open>char tmp = data[i]; data[i] = data[n]; data[n] = tmp;\<close> of
  lines 81-83 and 94-96.
\<close>

definition swap_bytes :: "byte list \<Rightarrow> nat \<Rightarrow> nat \<Rightarrow> error + byte list" where
  "swap_bytes data i n =
     (if i < length data \<and> n < length data
      then Inr (data[i := data ! n, n := data ! i])
      else Inl OutOfBounds)"

subsection \<open>Key derivation (lines 41-63)\<close>

text \<open>
  The preprocessor test \<^verbatim>\<open>__BYTE_ORDER__ == __ORDER_BIG_ENDIAN__\<close> of line 47 selects one
  of two sets of shifts when the program is built; the byte order of the target is a
  parameter of the model (\<open>ORDER_LITTLE_ENDIAN\<close> for a build in which the test is
  false): \<^verbatim>\<open>(7 - i) * 4\<close> in lines 48-50, \<^verbatim>\<open>i * 4\<close> in lines 52-54.
\<close>

datatype byte_order = ORDER_BIG_ENDIAN | ORDER_LITTLE_ENDIAN

definition hex_shift :: "byte_order \<Rightarrow> nat \<Rightarrow> nat" where
  "hex_shift bo i = (case bo of ORDER_BIG_ENDIAN \<Rightarrow> (7 - i) * 4 | ORDER_LITTLE_ENDIAN \<Rightarrow> i * 4)"

text \<open>
  \<^verbatim>\<open>str[k]\<close> of a C string: its characters, then the terminating NUL; beyond that the
  read is outside the array.
\<close>

definition str_at :: "string \<Rightarrow> nat \<Rightarrow> error + char" where
  "str_at str k =
     (if k < length str then Inr (str ! k)
      else if k = length str then Inr (CHR 0x00)
      else Inl OutOfBounds)"

text \<open>
  The value the three tests of lines 48-50 (or 52-54) give a character:
  \<^verbatim>\<open>tmp - 'A' + 0xA\<close>, \<^verbatim>\<open>tmp - 'a' + 0xA\<close>, \<^verbatim>\<open>tmp - '0'\<close>, or none, when line 56 is
  reached.
\<close>

definition hex_value :: "char \<Rightarrow> nat option" where
  "hex_value tmp =
     (let c = (of_char tmp :: nat) in
      if of_char (CHR ''A'') \<le> c \<and> c \<le> of_char (CHR ''F'') then Some (c - of_char (CHR ''A'') + 10)
      else if of_char (CHR ''a'') \<le> c \<and> c \<le> of_char (CHR ''f'') then Some (c - of_char (CHR ''a'') + 10)
      else if of_char (CHR ''0'') \<le> c \<and> c \<le> of_char (CHR ''9'') then Some (c - of_char (CHR ''0''))
      else None)"

text \<open>
  The loop of lines 44-61 from the current \<open>i\<close>; \<^verbatim>\<open>exit(EXIT_FAILURE)\<close> is the error
  \<open>UnsupportedChar\<close>. The shifted digit is an \<^verbatim>\<open>int\<close> that \<^verbatim>\<open>v +=\<close> converts to
  \<^verbatim>\<open>uint32_t\<close>; a digit of 8 or more shifted by 28 is taken with its two's complement
  bits, as the compilers of the \<^verbatim>\<open>__BYTE_ORDER__\<close> macro give it.
\<close>

function HexToUInt32_loop ::
  "byte_order \<Rightarrow> string \<Rightarrow> nat \<Rightarrow> nat \<Rightarrow> uint32_t \<Rightarrow> error + uint32_t" where
  "HexToUInt32_loop bo str start i v =
     (if i < 8 then
        (case str_at str (start + i) of
           Inl e \<Rightarrow> Inl e
         | Inr tmp \<Rightarrow>
             (case hex_value tmp of
                None \<Rightarrow> Inl UnsupportedChar
              | Some h \<Rightarrow>
                  HexToUInt32_loop bo str start (i + 1) (v + push_bit (hex_shift bo i) (of_nat h))))
      else Inr v)"
  by pat_completeness auto
termination
  by (relation "measure (\<lambda>(bo, str, start, i, v). 8 - i)") auto

definition HexToUInt32 :: "byte_order \<Rightarrow> string \<Rightarrow> nat \<Rightarrow> error + uint32_t" where
  "HexToUInt32 bo str start = HexToUInt32_loop bo str start 0 0"

subsection \<open>The exchange table (lines 66-72)\<close>

text \<open>
  \<^verbatim>\<open>malloc((len - 1) * sizeof(size_t))\<close>: the number of entries the block is asked to
  hold, \<^verbatim>\<open>len - 1\<close> as a \<^verbatim>\<open>size_t\<close> (the allocation is taken to succeed and the
  product not to wrap). The table is a map from the positions written so far to their
  entries; a position never written reads as an error.
\<close>

definition exTable_entries :: "nat \<Rightarrow> nat" where
  "exTable_entries len = size_sub len 1"

text \<open>
  The loop \<^verbatim>\<open>for (size_t i = len - 1; i > 0; i--) exTable[len - 1 - i] = random() % (i + 1);\<close>
  from the current \<open>i\<close>. The draw is converted to \<^verbatim>\<open>size_t\<close> and reduced modulo
  \<open>i + 1\<close>, itself a \<^verbatim>\<open>size_t\<close> that wraps; modulo zero is undefined.
\<close>

function GenExchangeTable_loop ::
  "nat \<Rightarrow> nat \<Rightarrow> (nat \<rightharpoonup> nat) \<Rightarrow> uint32_t \<Rightarrow> error + ((nat \<rightharpoonup> nat) \<times> uint32_t)" where
  "GenExchangeTable_loop len i exTable seed =
     (if i > 0 then
        (let r = fst (random seed); seed' = snd (random seed);
             d = size_add i 1; pos = size_sub (size_sub len 1) i
         in if d = 0 then Inl DivisionByZero
            else if exTable_entries len \<le> pos then Inl OutOfBounds
            else GenExchangeTable_loop len (i - 1) (exTable(pos \<mapsto> unat r mod d)) seed')
      else Inr (exTable, seed))"
  by pat_completeness auto
termination
  by (relation "measure (\<lambda>(len, i, exTable, seed). i)") auto

definition GenExchangeTable :: "nat \<Rightarrow> uint32_t \<Rightarrow> error + ((nat \<rightharpoonup> nat) \<times> uint32_t)" where
  "GenExchangeTable len seed = GenExchangeTable_loop len (size_sub len 1) Map.empty seed"

subsection \<open>Shuffle and DeShuffle (lines 75-99)\<close>

text \<open>The loop of lines 78-84, \<open>i\<close> counting down from \<open>len - 1\<close> while \<open>i > 0\<close>.\<close>

function Shuffle_loop ::
  "byte list \<Rightarrow> nat \<Rightarrow> (nat \<rightharpoonup> nat) \<Rightarrow> nat \<Rightarrow> error + byte list" where
  "Shuffle_loop data len exTable i =
     (if i > 0 then
        (case exTable (size_sub (size_sub len 1) i) of
           None \<Rightarrow> Inl OutOfBounds
         | Some n \<Rightarrow>
             (case swap_bytes data i n of
                Inl e \<Rightarrow> Inl e
              | Inr data' \<Rightarrow> Shuffle_loop data' len exTable (i - 1)))
      else Inr data)"
  by pat_completeness auto
termination
  by (relation "measure (\<lambda>(data, len, exTable, i). i)") auto

definition Shuffle :: "byte list \<Rightarrow> nat \<Rightarrow> uint32_t \<Rightarrow> error + (byte list \<times> uint32_t)" where
  "Shuffle data len seed =
     (case GenExchangeTable len seed of
        Inl e \<Rightarrow> Inl e
      | Inr (exTable, seed') \<Rightarrow>
          (case Shuffle_loop data len exTable (size_sub len 1) of
             Inl e \<Rightarrow> Inl e
           | Inr data' \<Rightarrow> Inr (data', seed')))"

text \<open>
  The loop of lines 91-97, \<open>i\<close> counting up from 1 while \<open>i < len\<close> (so \<open>i + 1\<close>
  does not wrap).
\<close>

function DeShuffle_loop ::
  "byte list \<Rightarrow> nat \<Rightarrow> (nat \<rightharpoonup> nat) \<Rightarrow> nat \<Rightarrow> error + byte list" where
  "DeShuffle_loop data len exTable i =
     (if i < len then
        (case exTable (size_sub (size_sub len i) 1) of
           None \<Rightarrow> Inl OutOfBounds
         | Some n \<Rightarrow>
             (case swap_bytes data i n of
                Inl e \<Rightarrow> Inl e
              | Inr data' \<Rightarrow> DeShuffle_loop data' len exTable (i + 1)))
      else Inr data)"
  by pat_completeness auto
termination
  by (relation "measure (\<lambda>(data, len, exTable, i). len - i)") auto

definition DeShuffle :: "byte list \<Rightarrow> nat \<Rightarrow> uint32_t \<Rightarrow> error + (byte list \<times> uint32_t)" where
  "DeShuffle data len seed =
     (case GenExchangeTable len seed of
        Inl e \<Rightarrow> Inl e
      | Inr (exTable, seed') \<Rightarrow>
          (case DeShuffle_loop data len exTable 1 of
             Inl e \<Rightarrow> Inl e
           | Inr data' \<Rightarrow> Inr (data', seed')))"

subsection \<open>Code and DeCode (lines 102-112)\<close>

text \<open>The mask \<^verbatim>\<open>(char)(random()%255)\<close> of a drawn value.\<close>

definition code_mask :: "uint32_t \<Rightarrow> byte" where
  "code_mask r = ucast (r mod 255)"

function Code_loop :: "byte list \<Rightarrow> nat \<Rightarrow> nat \<Rightarrow> uint32_t \<Rightarrow> error + (byte list \<times> uint32_t)" where
  "Code_loop data len i seed =
     (if i < len then
        (let r = fst (random seed); seed' = snd (random seed)
         in if i < length data
            then Code_loop (data[i := data ! i + code_mask r]) len (i + 1) seed'
            else Inl OutOfBounds)
      else Inr (data, seed))"
  by pat_completeness auto
termination
  by (relation "measure (\<lambda>(data, len, i, seed). len - i)") auto

definition Code :: "byte list \<Rightarrow> nat \<Rightarrow> uint32_t \<Rightarrow> error + (byte list \<times> uint32_t)" where
  "Code data len seed = Code_loop data len 0 seed"

function DeCode_loop :: "byte list \<Rightarrow> nat \<Rightarrow> nat \<Rightarrow> uint32_t \<Rightarrow> error + (byte list \<times> uint32_t)" where
  "DeCode_loop data len i seed =
     (if i < len then
        (let r = fst (random seed); seed' = snd (random seed)
         in if i < length data
            then DeCode_loop (data[i := data ! i - code_mask r]) len (i + 1) seed'
            else Inl OutOfBounds)
      else Inr (data, seed))"
  by pat_completeness auto
termination
  by (relation "measure (\<lambda>(data, len, i, seed). len - i)") auto

definition DeCode :: "byte list \<Rightarrow> nat \<Rightarrow> uint32_t \<Rightarrow> error + (byte list \<times> uint32_t)" where
  "DeCode data len seed = DeCode_loop data len 0 seed"

subsection \<open>Encrypt and Decrypt (lines 115-135)\<close>

text \<open>One round of \<^verbatim>\<open>Encrypt\<close>, lines 119-122.\<close>

definition Encrypt_round ::
  "byte list \<Rightarrow> nat \<Rightarrow> uint32_t list \<Rightarrow> nat \<Rightarrow> nat \<Rightarrow> error + (byte list \<times> uint32_t)" where
  "Encrypt_round data len keys kn i =
     (case rd keys i of
        Inl e \<Rightarrow> Inl e
      | Inr k1 \<Rightarrow>
          (case Shuffle data len k1 of
             Inl e \<Rightarrow> Inl e
           | Inr (data1, seed1) \<Rightarrow>
               (case rd keys (size_sub (size_sub kn 1) i) of
                  Inl e \<Rightarrow> Inl e
                | Inr k2 \<Rightarrow> Code data1 len k2)))"

function Encrypt_loop ::
  "byte list \<Rightarrow> nat \<Rightarrow> uint32_t list \<Rightarrow> nat \<Rightarrow> nat \<Rightarrow> uint32_t \<Rightarrow> error + (byte list \<times> uint32_t)" where
  "Encrypt_loop data len keys kn i seed =
     (if i < kn then
        (case Encrypt_round data len keys kn i of
           Inl e \<Rightarrow> Inl e
         | Inr (data', seed') \<Rightarrow> Encrypt_loop data' len keys kn (i + 1) seed')
      else Inr (data, seed))"
  by pat_completeness auto
termination
  by (relation "measure (\<lambda>(data, len, keys, kn, i, seed). kn - i)") auto

definition Encrypt ::
  "byte list \<Rightarrow> nat \<Rightarrow> uint32_t list \<Rightarrow> nat \<Rightarrow> uint32_t \<Rightarrow> error + (byte list \<times> uint32_t)" where
  "Encrypt data len keys kn seed = Encrypt_loop data len keys kn 0 seed"

text \<open>One round of \<^verbatim>\<open>Decrypt\<close>, lines 130-133.\<close>

definition Decrypt_round ::
  "byte list \<Rightarrow> nat \<Rightarrow> uint32_t list \<Rightarrow> nat \<Rightarrow> nat \<Rightarrow> error + (byte list \<times> uint32_t)" where
  "Decrypt_round data len keys kn i =
     (case rd keys (size_sub (size_sub kn 1) i) of
        Inl e \<Rightarrow> Inl e
      | Inr k2 \<Rightarrow>
          (case DeCode data len k2 of
             Inl e \<Rightarrow> Inl e
           | Inr (data1, seed1) \<Rightarrow>
               (case rd keys i of
                  Inl e \<Rightarrow> Inl e
                | Inr k1 \<Rightarrow> DeShuffle data1 len k1)))"

text \<open>
  \<^verbatim>\<open>for (size_t i = kn; i--;)\<close>: the test reads \<open>i\<close> and decrements it; the body runs
  with the decremented value when the value read was not zero.
\<close>

function Decrypt_loop ::
  "byte list \<Rightarrow> nat \<Rightarrow> uint32_t list \<Rightarrow> nat \<Rightarrow> nat \<Rightarrow> uint32_t \<Rightarrow> error + (byte list \<times> uint32_t)" where
  "Decrypt_loop data len keys kn i seed =
     (if i \<noteq> 0 then
        (case Decrypt_round data len keys kn (i - 1) of
           Inl e \<Rightarrow> Inl e
         | Inr (data', seed') \<Rightarrow> Decrypt_loop data' len keys kn (i - 1) seed')
      else Inr (data, seed))"
  by pat_completeness auto
termination
  by (relation "measure (\<lambda>(data, len, keys, kn, i, seed). i)") auto

definition Decrypt ::
  "byte list \<Rightarrow> nat \<Rightarrow> uint32_t list \<Rightarrow> nat \<Rightarrow> uint32_t \<Rightarrow> error + (byte list \<times> uint32_t)" where
  "Decrypt data len keys kn seed = Decrypt_loop data len keys kn kn seed"

subsection \<open>Auxiliary: the number a list of hexadecimal digits denotes\<close>

text \<open>The digits are given least significant first.\<close>

fun digits_value :: "nat list \<Rightarrow> nat" where
  "digits_value [] = 0"
| "digits_value (d # ds) = d + 16 * digits_value ds"

text \<open>The loop equations are unfolded one iteration at a time, by hand.\<close>

declare HexToUInt32_loop.simps [simp del]
declare GenExchangeTable_loop.simps [simp del]
declare Shuffle_loop.simps [simp del]
declare DeShuffle_loop.simps [simp del]
declare Code_loop.simps [simp del]
declare DeCode_loop.simps [simp del]
declare Encrypt_loop.simps [simp del]
declare Decrypt_loop.simps [simp del]

section \<open>Properties of the generator\<close>

lemma negative_test_False: "negative_test v = False"
  by (simp add: negative_test_def)

lemma random_eq: "random seed =
    (accumulator (zero_seed_guard seed) mod 65535, accumulator (zero_seed_guard seed))"
  by (simp add: random_def correct_negative_def negative_test_def RAND_MAX_def Let_def)

lemma draw_bound: "unat (fst (random seed)) \<le> 65534"
proof -
  have "fst (random seed) < 65535"
    by (simp add: random_eq word_mod_less_divisor)
  then show ?thesis
    by (simp add: word_less_nat_alt)
qed


section \<open>Size arithmetic and the exchange table\<close>

lemma size_sub_simple: "b \<le> a \<Longrightarrow> a < SIZE_MOD \<Longrightarrow> size_sub a b = a - b"
proof -
  assume h: "b \<le> a" "a < SIZE_MOD"
  then have 1: "a + SIZE_MOD - b = (a - b) + SIZE_MOD" by simp
  from h have 2: "b mod SIZE_MOD = b" "a - b < SIZE_MOD" by simp_all
  show ?thesis by (simp add: size_sub_def 1 2)
qed

lemma size_add_simple: "a + b < SIZE_MOD \<Longrightarrow> size_add a b = a + b"
  by (simp add: size_add_def)

lemma length_draws [simp]: "length (draws k seed) = k"
  by (induction k arbitrary: seed) simp_all

lemma GenExchangeTable_loop_result:
  assumes len: "len < SIZE_MOD"
  shows "i < len \<Longrightarrow>
    GenExchangeTable_loop len i exTable seed =
      Inr (\<lambda>j. if len - 1 - i \<le> j \<and> j < len - 1
                then Some (unat (draws i seed ! (j - (len - 1 - i))) mod (len - j))
                else exTable j,
           seed_after i seed)"
proof (induction i arbitrary: exTable seed)
  case 0
  show ?case
    by (subst GenExchangeTable_loop.simps) (auto simp: fun_eq_iff)
next
  case (Suc i)
  have pos: "size_sub (size_sub len 1) (Suc i) = len - 1 - Suc i"
    using Suc.prems len by (simp add: size_sub_simple)
  have d: "size_add (Suc i) 1 = Suc (Suc i)"
    using Suc.prems len by (simp add: size_add_simple)
  have cap: "exTable_entries len = len - 1"
    using Suc.prems len by (simp add: exTable_entries_def size_sub_simple)
  have lt: "i < len" using Suc.prems by simp
  have nb: "\<not> len - 1 \<le> len - 1 - Suc i" using Suc.prems by simp
  have step: "GenExchangeTable_loop len (Suc i) exTable seed =
      GenExchangeTable_loop len i
        (exTable(len - 1 - Suc i \<mapsto> unat (fst (random seed)) mod Suc (Suc i)))
        (snd (random seed))"
    using Suc.prems
    by (subst GenExchangeTable_loop.simps) (simp only: pos d cap nb Let_def zero_less_Suc if_True if_False nat.simps diff_Suc_1)
  show ?case
    unfolding step Suc.IH [OF lt]
    using Suc.prems
    by (auto simp: fun_eq_iff nth_Cons' Suc_diff_Suc)
qed


lemma GenExchangeTable_result:
  assumes "0 < len" "len < SIZE_MOD"
  shows "GenExchangeTable len seed =
    Inr (\<lambda>j. if j < len - 1 then Some (unat (draws (len - 1) seed ! j) mod (len - j)) else None,
         seed_after (len - 1) seed)"
proof -
  have 1: "size_sub len 1 = len - 1"
    using assms by (simp add: size_sub_simple)
  have 2: "len - 1 < len"
    using assms by simp
  have 3: "len - 1 - (len - 1) = 0"
    by simp
  show ?thesis
    unfolding GenExchangeTable_def 1 GenExchangeTable_loop_result [OF assms(2) 2] 3
    by (simp add: fun_eq_iff)
qed

lemma swap_bytes_Inr:
  "i < length data \<Longrightarrow> n < length data \<Longrightarrow>
   swap_bytes data i n = Inr (data[i := data ! n, n := data ! i])"
  by (simp add: swap_bytes_def)

lemma swap_twice:
  assumes "i < length data" "n < length data"
  shows "swap_bytes (data[i := data ! n, n := data ! i]) i n = Inr data"
proof -
  have "(data[i := data ! n, n := data ! i])[i := data[i := data ! n, n := data ! i] ! n,
          n := data[i := data ! n, n := data ! i] ! i] = data"
    using assms by (auto simp: list_eq_iff_nth_eq nth_list_update)
  then show ?thesis
    using assms by (simp add: swap_bytes_def)
qed

lemma Shuffle_loop_Suc:
  assumes "Suc i < len" "len < SIZE_MOD" "exTable (len - 1 - Suc i) = Some n"
  shows "Shuffle_loop data len exTable (Suc i) =
    (case swap_bytes data (Suc i) n of Inl e \<Rightarrow> Inl e
     | Inr data' \<Rightarrow> Shuffle_loop data' len exTable i)"
proof -
  have "size_sub (size_sub len 1) (Suc i) = len - 1 - Suc i"
    using assms by (simp add: size_sub_simple)
  then show ?thesis
    using assms(3)
    by (subst Shuffle_loop.simps) (simp only: zero_less_Suc if_True option.case diff_Suc_1)
qed

lemma DeShuffle_loop_step:
  assumes "0 < i" "i < len" "len < SIZE_MOD" "exTable (len - 1 - i) = Some n"
  shows "DeShuffle_loop data len exTable i =
    (case swap_bytes data i n of Inl e \<Rightarrow> Inl e
     | Inr data' \<Rightarrow> DeShuffle_loop data' len exTable (Suc i))"
proof -
  have "size_sub len i = len - i"
    using assms by (simp add: size_sub_simple)
  moreover have "size_sub (len - i) 1 = len - i - 1"
    using assms by (simp add: size_sub_simple)
  moreover have "len - i - 1 = len - 1 - i" by simp
  ultimately have "size_sub (size_sub len i) 1 = len - 1 - i" by simp
  then show ?thesis
    using assms(2,4)
    by (subst DeShuffle_loop.simps) (simp only: if_True option.case Suc_eq_plus1)
qed


lemma Shuffle_loop_ok:
  assumes len: "len < SIZE_MOD"
    and tab: "\<And>k. 0 < k \<Longrightarrow> k < len \<Longrightarrow> \<exists>n\<le>k. exTable (len - 1 - k) = Some n"
  shows "i < len \<Longrightarrow> length data = len \<Longrightarrow>
    \<exists>d. Shuffle_loop data len exTable i = Inr d \<and> length d = len \<and> mset d = mset data"
proof (induction i arbitrary: data)
  case 0
  show ?case
    using 0 by (subst Shuffle_loop.simps) simp
next
  case (Suc i)
  from tab [of "Suc i"] Suc.prems obtain n where n: "n \<le> Suc i" "exTable (len - 1 - Suc i) = Some n"
    by auto
  let ?d = "data[Suc i := data ! n, n := data ! Suc i]"
  have sw: "swap_bytes data (Suc i) n = Inr ?d"
    using n Suc.prems by (simp add: swap_bytes_Inr)
  have ms: "mset ?d = mset data"
    using n Suc.prems by (simp add: mset_swap)
  have "i < len" "length ?d = len"
    using Suc.prems by simp_all
  from Suc.IH [OF this] ms show ?case
    by (simp add: Shuffle_loop_Suc [where exTable = exTable, OF Suc.prems(1) len n(2)] sw)
qed

lemma DeShuffle_loop_ok:
  assumes len: "len < SIZE_MOD"
    and tab: "\<And>k. 0 < k \<Longrightarrow> k < len \<Longrightarrow> \<exists>n\<le>k. exTable (len - 1 - k) = Some n"
  shows "0 < i \<Longrightarrow> length data = len \<Longrightarrow>
    \<exists>d. DeShuffle_loop data len exTable i = Inr d \<and> length d = len \<and> mset d = mset data"
proof (induction "len - i" arbitrary: i data)
  case 0
  then show ?case
    by (subst DeShuffle_loop.simps) simp
next
  case (Suc m)
  then have il: "i < len" by simp
  from tab [OF Suc.prems(1) il] obtain n where n: "n \<le> i" "exTable (len - 1 - i) = Some n"
    by auto
  let ?d = "data[i := data ! n, n := data ! i]"
  have sw: "swap_bytes data i n = Inr ?d"
    using n il Suc.prems by (simp add: swap_bytes_Inr)
  have ms: "mset ?d = mset data"
    using n il Suc.prems by (simp add: mset_swap)
  have "m = len - Suc i" "0 < Suc i" "length ?d = len"
    using Suc.prems Suc.hyps(2) by simp_all
  from Suc.hyps(1) [OF this] ms show ?case
    by (simp add: DeShuffle_loop_step [where exTable = exTable, OF Suc.prems(1) il len n(2)] sw)
qed

lemma DeShuffle_after_Shuffle_loop:
  assumes len: "len < SIZE_MOD"
    and tab: "\<And>k. 0 < k \<Longrightarrow> k < len \<Longrightarrow> \<exists>n\<le>k. exTable (len - 1 - k) = Some n"
  shows "i < len \<Longrightarrow> length x = len \<Longrightarrow> Shuffle_loop x len exTable i = Inr y \<Longrightarrow>
    DeShuffle_loop y len exTable 1 = DeShuffle_loop x len exTable (Suc i)"
proof (induction i arbitrary: x)
  case 0
  then show ?case
    by (subst (asm) Shuffle_loop.simps) simp
next
  case (Suc i)
  from tab [of "Suc i"] Suc.prems obtain n where n: "n \<le> Suc i" "exTable (len - 1 - Suc i) = Some n"
    by auto
  let ?d = "x[Suc i := x ! n, n := x ! Suc i]"
  have sw: "swap_bytes x (Suc i) n = Inr ?d"
    using n Suc.prems by (simp add: swap_bytes_Inr)
  have undo: "swap_bytes ?d (Suc i) n = Inr x"
    using n Suc.prems by (simp add: swap_twice)
  have "Shuffle_loop ?d len exTable i = Inr y"
    using Suc.prems(3) by (simp add: Shuffle_loop_Suc [where exTable = exTable, OF Suc.prems(1) len n(2)] sw)
  moreover have "i < len" "length ?d = len"
    using Suc.prems by simp_all
  ultimately have "DeShuffle_loop y len exTable 1 = DeShuffle_loop ?d len exTable (Suc i)"
    using Suc.IH by blast
  also have "\<dots> = DeShuffle_loop x len exTable (Suc (Suc i))"
    using Suc.prems(1)
    by (simp add: DeShuffle_loop_step [where exTable = exTable, OF _ Suc.prems(1) len n(2)] undo)
  finally show ?case .
qed


lemma exTable_valid:
  assumes "0 < k" "k < len"
  shows "\<exists>n\<le>k. (\<lambda>j. if j < len - 1 then Some (unat (draws (len - 1) seed ! j) mod (len - j)) else None)
           (len - 1 - k) = Some n"
proof -
  have "len - (len - 1 - k) = Suc k"
    using assms by simp
  moreover have "len - 1 - k < len - 1"
    using assms by simp
  moreover have "m mod Suc k \<le> k" for m
    using mod_less_divisor [of "Suc k" m] by simp
  ultimately show ?thesis
    by simp
qed

lemma Shuffle_ok:
  assumes "0 < length data" "length data < SIZE_MOD"
  shows "\<exists>d. Shuffle data (length data) seed = Inr (d, seed_after (length data - 1) seed) \<and>
           length d = length data \<and> mset d = mset data \<and>
           DeShuffle d (length data) seed = Inr (data, seed_after (length data - 1) seed)"
proof -
  let ?len = "length data"
  let ?t = "\<lambda>j. if j < ?len - 1 then Some (unat (draws (?len - 1) seed ! j) mod (?len - j)) else None"
  have gen: "GenExchangeTable ?len seed = Inr (?t, seed_after (?len - 1) seed)"
    using assms by (rule GenExchangeTable_result)
  have tab: "\<And>k. 0 < k \<Longrightarrow> k < ?len \<Longrightarrow> \<exists>n\<le>k. ?t (?len - 1 - k) = Some n"
    by (rule exTable_valid)
  have sz: "size_sub ?len 1 = ?len - 1"
    using assms by (intro size_sub_simple) (simp_all add: Suc_leI)
  have lt: "?len - 1 < ?len"
    using assms by simp
  from Shuffle_loop_ok [OF assms(2) tab lt refl]
  obtain d where d: "Shuffle_loop data ?len ?t (?len - 1) = Inr d" "length d = ?len" "mset d = mset data"
    by blast
  have "DeShuffle_loop d ?len ?t 1 = DeShuffle_loop data ?len ?t (Suc (?len - 1))"
    using DeShuffle_after_Shuffle_loop [OF assms(2) tab lt refl d(1)] .
  also have "\<dots> = Inr data"
    using assms by (subst DeShuffle_loop.simps) simp
  finally have undo: "DeShuffle_loop d ?len ?t 1 = Inr data" .
  have "Shuffle data ?len seed = Inr (d, seed_after (?len - 1) seed)"
    unfolding Shuffle_def gen sz prod.case sum.case d(1) by simp
  moreover have "DeShuffle d ?len seed = Inr (data, seed_after (?len - 1) seed)"
    unfolding DeShuffle_def gen prod.case sum.case undo by simp
  ultimately show ?thesis
    using d by blast
qed

lemma DeShuffle_ok:
  assumes "0 < length data" "length data < SIZE_MOD"
  shows "\<exists>d. DeShuffle data (length data) seed = Inr (d, seed_after (length data - 1) seed) \<and>
           length d = length data \<and> mset d = mset data"
proof -
  let ?len = "length data"
  let ?t = "\<lambda>j. if j < ?len - 1 then Some (unat (draws (?len - 1) seed ! j) mod (?len - j)) else None"
  have gen: "GenExchangeTable ?len seed = Inr (?t, seed_after (?len - 1) seed)"
    using assms by (rule GenExchangeTable_result)
  have tab: "\<And>k. 0 < k \<Longrightarrow> k < ?len \<Longrightarrow> \<exists>n\<le>k. ?t (?len - 1 - k) = Some n"
    by (rule exTable_valid)
  from DeShuffle_loop_ok [OF assms(2) tab _ refl, of 1]
  obtain d where d: "DeShuffle_loop data ?len ?t 1 = Inr d" "length d = ?len" "mset d = mset data"
    by auto
  have "DeShuffle data ?len seed = Inr (d, seed_after (?len - 1) seed)"
    unfolding DeShuffle_def gen prod.case sum.case d(1) by simp
  then show ?thesis
    using d by blast
qed

lemma Code_loop_result:
  "length data = len \<Longrightarrow> i \<le> len \<Longrightarrow>
   Code_loop data len i seed =
     Inr (take i data @ map2 (\<lambda>b r. b + code_mask r) (drop i data) (draws (len - i) seed),
          seed_after (len - i) seed)"
proof (induction "len - i" arbitrary: i data seed)
  case 0
  then show ?case
    by (subst Code_loop.simps) simp
next
  case (Suc m)
  then have il: "i < len" by simp
  let ?d = "data[i := data ! i + code_mask (fst (random seed))]"
  have m: "m = len - Suc i" "len - i = Suc (len - Suc i)"
    using Suc.hyps(2) by simp_all
  have step: "Code_loop data len i seed = Code_loop ?d len (Suc i) (snd (random seed))"
    using il Suc.prems by (subst Code_loop.simps) (simp add: Let_def)
  have "Code_loop ?d len (Suc i) (snd (random seed)) =
      Inr (take (Suc i) ?d @ map2 (\<lambda>b r. b + code_mask r) (drop (Suc i) ?d) (draws (len - Suc i) (snd (random seed))),
           seed_after (len - Suc i) (snd (random seed)))"
    using Suc.hyps(1) [OF m(1), of ?d] il Suc.prems by simp
  moreover have "take (Suc i) ?d = take i data @ [data ! i + code_mask (fst (random seed))]"
    using il Suc.prems by (simp add: take_Suc_conv_app_nth)
  moreover have "drop i data = data ! i # drop (Suc i) data"
    using il Suc.prems by (simp add: Cons_nth_drop_Suc)
  ultimately show ?case
    unfolding step by (simp add: m(2))
qed

lemma DeCode_loop_result:
  "length data = len \<Longrightarrow> i \<le> len \<Longrightarrow>
   DeCode_loop data len i seed =
     Inr (take i data @ map2 (\<lambda>b r. b - code_mask r) (drop i data) (draws (len - i) seed),
          seed_after (len - i) seed)"
proof (induction "len - i" arbitrary: i data seed)
  case 0
  then show ?case
    by (subst DeCode_loop.simps) simp
next
  case (Suc m)
  then have il: "i < len" by simp
  let ?d = "data[i := data ! i - code_mask (fst (random seed))]"
  have m: "m = len - Suc i" "len - i = Suc (len - Suc i)"
    using Suc.hyps(2) by simp_all
  have step: "DeCode_loop data len i seed = DeCode_loop ?d len (Suc i) (snd (random seed))"
    using il Suc.prems by (subst DeCode_loop.simps) (simp add: Let_def)
  have "DeCode_loop ?d len (Suc i) (snd (random seed)) =
      Inr (take (Suc i) ?d @ map2 (\<lambda>b r. b - code_mask r) (drop (Suc i) ?d) (draws (len - Suc i) (snd (random seed))),
           seed_after (len - Suc i) (snd (random seed)))"
    using Suc.hyps(1) [OF m(1), of ?d] il Suc.prems by simp
  moreover have "take (Suc i) ?d = take i data @ [data ! i - code_mask (fst (random seed))]"
    using il Suc.prems by (simp add: take_Suc_conv_app_nth)
  moreover have "drop i data = data ! i # drop (Suc i) data"
    using il Suc.prems by (simp add: Cons_nth_drop_Suc)
  ultimately show ?case
    unfolding step by (simp add: m(2))
qed

lemma Code_result:
  "Code data (length data) seed =
     Inr (map2 (\<lambda>b r. b + code_mask r) data (draws (length data) seed), seed_after (length data) seed)"
  using Code_loop_result [of data "length data" 0 seed] by (simp add: Code_def)

lemma DeCode_result:
  "DeCode data (length data) seed =
     Inr (map2 (\<lambda>b r. b - code_mask r) data (draws (length data) seed), seed_after (length data) seed)"
  using DeCode_loop_result [of data "length data" 0 seed] by (simp add: DeCode_def)

lemma unmask_mask:
  "length ds = length data \<Longrightarrow>
   map2 (\<lambda>b r. b - code_mask r) (map2 (\<lambda>b r. b + code_mask r) data ds) ds = data"
  by (simp add: list_eq_iff_nth_eq)

lemma mask_bound: "unat (code_mask r) \<le> 254"
proof -
  have "r mod 255 < 255"
    by (simp add: word_mod_less_divisor)
  then have "unat (r mod 255) < 255"
    by (simp add: word_less_nat_alt)
  moreover have "unat (code_mask r) = unat (r mod 255) mod 256"
    by (simp add: code_mask_def unsigned_ucast_eq take_bit_eq_mod)
  ultimately show ?thesis
    by simp
qed


lemma round_inverse:
  assumes len: "0 < length data" "length data < SIZE_MOD"
    and kn: "length keys < SIZE_MOD" "i < length keys"
  shows "\<exists>d s. Encrypt_round data (length data) keys (length keys) i = Inr (d, s) \<and>
           length d = length data \<and>
           (\<exists>s'. Decrypt_round d (length data) keys (length keys) i = Inr (data, s'))"
proof -
  let ?len = "length data" and ?kn = "length keys"
  let ?k1 = "keys ! i" and ?k2 = "keys ! (?kn - 1 - i)"
  have r1: "rd keys i = Inr ?k1"
    using kn by (simp add: rd_def)
  have "size_sub ?kn 1 = ?kn - 1"
    using kn by (intro size_sub_simple) simp_all
  moreover have "size_sub (?kn - 1) i = ?kn - 1 - i"
    using kn by (intro size_sub_simple) simp_all
  ultimately have idx: "size_sub (size_sub ?kn 1) i = ?kn - 1 - i"
    by simp
  have r2: "rd keys (?kn - 1 - i) = Inr ?k2"
    using kn by (simp add: rd_def)
  from Shuffle_ok [OF len, of ?k1]
  obtain d1 where d1: "Shuffle data ?len ?k1 = Inr (d1, seed_after (?len - 1) ?k1)"
    "length d1 = ?len" "DeShuffle d1 ?len ?k1 = Inr (data, seed_after (?len - 1) ?k1)"
    by blast
  let ?d2 = "map2 (\<lambda>b r. b + code_mask r) d1 (draws ?len ?k2)"
  have c: "Code d1 ?len ?k2 = Inr (?d2, seed_after ?len ?k2)"
    using Code_result [of d1 ?k2] d1(2) by simp
  have l2: "length ?d2 = ?len"
    using d1(2) by simp
  have dc: "DeCode ?d2 ?len ?k2 = Inr (d1, seed_after ?len ?k2)"
    using DeCode_result [of ?d2 ?k2] l2 unmask_mask [of "draws ?len ?k2" d1] d1(2) by simp
  have "Encrypt_round data ?len keys ?kn i = Inr (?d2, seed_after ?len ?k2)"
    by (simp only: Encrypt_round_def idx r1 r2 d1(1) c sum.case prod.case)
  moreover have "Decrypt_round ?d2 ?len keys ?kn i = Inr (data, seed_after (?len - 1) ?k1)"
    by (simp only: Decrypt_round_def idx r1 r2 dc d1(3) sum.case prod.case)
  ultimately show ?thesis
    using l2 by blast
qed

lemma Decrypt_loop_seed:
  "map_sum id fst (Decrypt_loop d len keys kn i s) = map_sum id fst (Decrypt_loop d len keys kn i s')"
proof (cases "i = 0")
  case True
  then show ?thesis
    by (simp add: Decrypt_loop.simps [of d len keys kn 0])
next
  case False
  then have "Decrypt_loop d len keys kn i s = Decrypt_loop d len keys kn i s'"
    by (simp add: Decrypt_loop.simps [of d len keys kn i])
  then show ?thesis by simp
qed

lemma Decrypt_after_Encrypt_loop:
  assumes len: "0 < len" "len < SIZE_MOD"
    and kn: "length keys < SIZE_MOD"
  shows "i \<le> length keys \<Longrightarrow> length x = len \<Longrightarrow>
    \<exists>d s'. Encrypt_loop x len keys (length keys) i s = Inr (d, s') \<and> length d = len \<and>
      (\<forall>s2 s4. map_sum id fst (Decrypt_loop d len keys (length keys) (length keys) s4) =
                map_sum id fst (Decrypt_loop x len keys (length keys) i s2))"
proof (induction "length keys - i" arbitrary: i x s)
  case 0
  then have i: "i = length keys" by simp
  have "Encrypt_loop x len keys (length keys) i s = Inr (x, s)"
    unfolding i by (subst Encrypt_loop.simps) simp
  then show ?case
    using 0 i Decrypt_loop_seed by blast
next
  case (Suc m)
  then have ik: "i < length keys" by simp
  from round_inverse [of x keys i] len kn ik Suc.prems
  obtain x1 s1 sx where r: "Encrypt_round x len keys (length keys) i = Inr (x1, s1)"
    "length x1 = len" "Decrypt_round x1 len keys (length keys) i = Inr (x, sx)"
    by auto
  have e: "Encrypt_loop x len keys (length keys) i s = Encrypt_loop x1 len keys (length keys) (Suc i) s1"
    using ik by (simp add: Encrypt_loop.simps [of x len keys "length keys" i] r(1))
  have d: "Decrypt_loop x1 len keys (length keys) (Suc i) s2 = Decrypt_loop x len keys (length keys) i sx" for s2
    by (simp add: Decrypt_loop.simps [of x1 len keys "length keys" "Suc i"] r(3))
  have "m = length keys - Suc i" "Suc i \<le> length keys"
    using Suc.hyps(2) ik by simp_all
  from Suc.hyps(1) [OF this r(2), of s1]
  obtain dd s' where dd: "Encrypt_loop x1 len keys (length keys) (Suc i) s1 = Inr (dd, s')"
    "length dd = len"
    "\<And>s2 s4. map_sum id fst (Decrypt_loop dd len keys (length keys) (length keys) s4) =
                map_sum id fst (Decrypt_loop x1 len keys (length keys) (Suc i) s2)"
    by blast
  have "map_sum id fst (Decrypt_loop dd len keys (length keys) (length keys) s4) =
        map_sum id fst (Decrypt_loop x len keys (length keys) i s2)" for s2 s4
    using dd(3) [of s4 s2] Decrypt_loop_seed [of x len keys "length keys" i sx s2] by (simp add: d)
  then show ?case
    using dd(1,2) e by simp
qed

lemma round_trip_nonempty:
  assumes "0 < length data" "length data < SIZE_MOD" "length keys < SIZE_MOD"
  shows "\<exists>d s'. Encrypt data (length data) keys (length keys) seed = Inr (d, s') \<and>
           length d = length data \<and>
           (\<exists>s3. Decrypt d (length data) keys (length keys) seed2 = Inr (data, s3))"
proof -
  from Decrypt_after_Encrypt_loop [OF assms, of 0 data seed]
  obtain d s' where d: "Encrypt_loop data (length data) keys (length keys) 0 seed = Inr (d, s')"
    "length d = length data"
    "\<And>s2 s4. map_sum id fst (Decrypt_loop d (length data) keys (length keys) (length keys) s4) =
                map_sum id fst (Decrypt_loop data (length data) keys (length keys) 0 s2)"
    by auto
  have "map_sum id fst (Decrypt d (length data) keys (length keys) seed2) = Inr data"
    using d(3) [of seed2 seed2]
    by (simp add: Decrypt_def Decrypt_loop.simps [of data "length data" keys "length keys" 0])
  then have "\<exists>s3. Decrypt d (length data) keys (length keys) seed2 = Inr (data, s3)"
    by (cases "Decrypt d (length data) keys (length keys) seed2") auto
  then show ?thesis
    using d(1,2) by (auto simp: Encrypt_def)
qed

section \<open>The empty buffer\<close>

lemma GenExchangeTable_zero: "GenExchangeTable 0 seed = Inl DivisionByZero"
  unfolding GenExchangeTable_def
  by (subst GenExchangeTable_loop.simps) (simp add: size_sub_def size_add_def SIZE_MOD_def Let_def)

lemma Shuffle_zero: "Shuffle data 0 seed = Inl DivisionByZero"
  by (simp add: Shuffle_def GenExchangeTable_zero)

lemma DeShuffle_zero: "DeShuffle data 0 seed = Inl DivisionByZero"
  by (simp add: DeShuffle_def GenExchangeTable_zero)

lemma DeCode_zero: "DeCode data 0 seed = Inr (data, seed)"
  unfolding DeCode_def by (subst DeCode_loop.simps) simp

lemma size_sub_less: "size_sub a b < SIZE_MOD"
  by (simp add: size_sub_def SIZE_MOD_def)

lemma key_index_in_range:
  assumes "i < kn"
  shows "size_sub (size_sub kn 1) i < kn"
proof (cases "kn < SIZE_MOD")
  case True
  have "size_sub kn 1 = kn - 1"
    using True assms by (intro size_sub_simple) simp_all
  moreover have "size_sub (kn - 1) i = kn - 1 - i"
    using True assms by (intro size_sub_simple) simp_all
  ultimately show ?thesis
    using assms by simp
next
  case False
  then show ?thesis
    using size_sub_less [of "size_sub kn 1" i] by simp
qed

lemma Encrypt_zero: "Encrypt data 0 (k # ks) (length (k # ks)) seed = Inl DivisionByZero"
  unfolding Encrypt_def
  by (subst Encrypt_loop.simps) (simp add: Encrypt_round_def rd_def Shuffle_zero)

lemma Decrypt_zero: "Decrypt data 0 (k # ks) (length (k # ks)) seed = Inl DivisionByZero"
proof -
  let ?keys = "k # ks"
  have "length ks < length ?keys" by simp
  then have "size_sub (size_sub (length ?keys) 1) (length ks) < length ?keys"
    by (rule key_index_in_range)
  then have "Decrypt_round data 0 ?keys (length ?keys) (length ks) = Inl DivisionByZero"
    by (simp add: Decrypt_round_def rd_def DeCode_zero DeShuffle_zero del: length_Cons)
  then have "Decrypt_round data 0 ?keys (length ?keys) (length ?keys - 1) = Inl DivisionByZero"
    by simp
  then show ?thesis
    unfolding Decrypt_def
    by (subst Decrypt_loop.simps) (simp del: length_Cons add: length_Cons [symmetric])
qed

section \<open>Key derivation\<close>

lemma hex_value_bound: "hex_value c = Some h \<Longrightarrow> h < 16"
  by (auto simp: hex_value_def Let_def split: if_splits)

lemma HexToUInt32_loop_step:
  assumes "i < 8" "start + i < length str" "hex_value (str ! (start + i)) = Some h"
  shows "HexToUInt32_loop bo str start i v =
    HexToUInt32_loop bo str start (Suc i) (v + push_bit (hex_shift bo i) (of_nat h))"
  using assms by (subst HexToUInt32_loop.simps) (simp add: str_at_def)

lemma HexToUInt32_loop_sum:
  assumes "start + 8 \<le> length str" "\<And>k. k < 8 \<Longrightarrow> hex_value (str ! (start + k)) = Some (dg k)"
  shows "i \<le> 8 \<Longrightarrow> HexToUInt32_loop bo str start i v =
    Inr (v + (\<Sum>k = i..<8. push_bit (hex_shift bo k) (of_nat (dg k))))"
proof (induction "8 - i" arbitrary: i v)
  case 0
  then show ?case
    by (subst HexToUInt32_loop.simps) simp
next
  case (Suc m)
  then have i: "i < 8" by simp
  have "HexToUInt32_loop bo str start i v =
      HexToUInt32_loop bo str start (Suc i) (v + push_bit (hex_shift bo i) (of_nat (dg i)))"
    using i assms by (intro HexToUInt32_loop_step) simp_all
  also have "\<dots> = Inr (v + push_bit (hex_shift bo i) (of_nat (dg i)) +
      (\<Sum>k = Suc i..<8. push_bit (hex_shift bo k) (of_nat (dg k))))"
    using Suc.hyps(2) i by (intro Suc.hyps(1)) simp_all
  also have "\<dots> = Inr (v + (\<Sum>k = i..<8. push_bit (hex_shift bo k) (of_nat (dg k))))"
    using i by (simp add: sum.atLeast_Suc_lessThan add.assoc)
  finally show ?case .
qed

lemma digits_value_bound: "\<forall>d\<in>set ds. d < 16 \<Longrightarrow> digits_value ds < 16 ^ length ds"
  by (induction ds) auto

lemma digits_value_digit:
  "\<forall>d\<in>set ds. d < 16 \<Longrightarrow> i < length ds \<Longrightarrow> digits_value ds div 16 ^ i mod 16 = ds ! i"
proof (induction ds arbitrary: i)
  case Nil
  then show ?case by simp
next
  case (Cons d ds)
  show ?case
  proof (cases i)
    case 0
    with Cons.prems show ?thesis by simp
  next
    case (Suc j)
    have "(d + 16 * digits_value ds) div (16 * 16 ^ j) = (d + 16 * digits_value ds) div 16 div 16 ^ j"
      by (simp add: div_mult2_eq)
    also have "(d + 16 * digits_value ds) div 16 = digits_value ds"
      using Cons.prems by simp
    finally show ?thesis
      using Cons Suc by simp
  qed
qed

lemma sum8:
  fixes f :: "nat \<Rightarrow> 'a::comm_monoid_add"
  shows "(\<Sum>k = 0..<8. f k) = f 0 + f 1 + f 2 + f 3 + f 4 + f 5 + f 6 + f 7"
proof -
  have "{0..<8::nat} = {0, 1, 2, 3, 4, 5, 6, 7}"
    by auto
  then show ?thesis
    by (simp add: add_ac)
qed

lemma sum_little: "(\<Sum>k = 0..<8. push_bit (hex_shift ORDER_LITTLE_ENDIAN k) (of_nat (dg k))) =
    (of_nat (digits_value (map dg [0, 1, 2, 3, 4, 5, 6, 7])) :: uint32_t)"
  by (simp add: sum8 hex_shift_def push_bit_eq_mult)

lemma sum_big: "(\<Sum>k = 0..<8. push_bit (hex_shift ORDER_BIG_ENDIAN k) (of_nat (dg k))) =
    (of_nat (digits_value (map dg [7, 6, 5, 4, 3, 2, 1, 0])) :: uint32_t)"
  by (simp add: sum8 hex_shift_def push_bit_eq_mult)


lemma upt8: "[0..<8] = [0, 1, 2, 3, 4, 5, 6, 7]"
  by (simp add: upt_rec)

lemma less8: "k < 8 \<longleftrightarrow> k = 0 \<or> k = 1 \<or> k = 2 \<or> k = 3 \<or> k = 4 \<or> k = 5 \<or> k = 6 \<or> k = (7::nat)"
  by arith

lemma nibble_of_digits:
  assumes ds: "\<forall>d\<in>set ds. d < 16" "length ds = 8" and j: "j < 8"
  shows "unat (take_bit 4 (drop_bit (j * 4) (of_nat (digits_value ds) :: uint32_t))) = ds ! j"
proof -
  have "digits_value ds < 16 ^ 8"
    using digits_value_bound [OF ds(1)] ds(2) by simp
  then have u: "unat (of_nat (digits_value ds) :: uint32_t) = digits_value ds"
    by (simp add: unat_of_nat)
  have w: "unat (take_bit 4 (drop_bit (j * 4) w)) = take_bit 4 (drop_bit (j * 4) (unat w))"
    for w :: uint32_t
    by (simp add: unsigned_take_bit_eq unat_drop_bit_eq)
  have "(2::nat) ^ (4 * j) = (2 ^ 4) ^ j"
    by (rule power_mult)
  then have "(2::nat) ^ (j * 4) = 16 ^ j"
    by (simp add: mult.commute)
  then have "take_bit 4 (drop_bit (j * 4) (digits_value ds)) = digits_value ds div 16 ^ j mod 16"
    by (simp add: take_bit_eq_mod drop_bit_eq_div)
  also have "\<dots> = ds ! j"
    using ds j by (simp add: digits_value_digit)
  finally show ?thesis
    unfolding w u .
qed

lemma HexToUInt32_nibbles:
  assumes "start + 8 \<le> length str" "\<forall>k<8. hex_value (str ! (start + k)) = Some (dg k)"
  shows "\<exists>w. HexToUInt32 bo str start = Inr w \<and>
           (\<forall>i<8. unat (take_bit 4 (drop_bit (hex_shift bo i) w)) = dg i)"
proof -
  have dg: "dg k < 16" if "k < 8" for k
    using assms(2) that hex_value_bound by blast
  have r: "HexToUInt32 bo str start = Inr (\<Sum>k = 0..<8. push_bit (hex_shift bo k) (of_nat (dg k)))"
    unfolding HexToUInt32_def
    using HexToUInt32_loop_sum [of start str dg 0 bo 0] assms by simp
  show ?thesis
  proof (cases bo)
    case ORDER_LITTLE_ENDIAN
    let ?ds = "map dg [0..<8]"
    have v: "(\<Sum>k = 0..<8. push_bit (hex_shift bo k) (of_nat (dg k))) = (of_nat (digits_value ?ds) :: uint32_t)"
      unfolding ORDER_LITTLE_ENDIAN upt8 by (rule sum_little)
    have "\<forall>d\<in>set ?ds. d < 16" "length ?ds = 8"
      using dg by auto
    then have "unat (take_bit 4 (drop_bit (i * 4) (of_nat (digits_value ?ds) :: uint32_t))) = ?ds ! i"
      if "i < 8" for i
      using that by (rule nibble_of_digits)
    then have "\<forall>i<8. unat (take_bit 4 (drop_bit (hex_shift bo i) (of_nat (digits_value ?ds) :: uint32_t))) = dg i"
      by (simp add: ORDER_LITTLE_ENDIAN hex_shift_def)
    then show ?thesis
      unfolding r v by blast
  next
    case ORDER_BIG_ENDIAN
    let ?ds = "rev (map dg [0..<8])"
    have v: "(\<Sum>k = 0..<8. push_bit (hex_shift bo k) (of_nat (dg k))) = (of_nat (digits_value ?ds) :: uint32_t)"
      unfolding ORDER_BIG_ENDIAN upt8 using sum_big [of dg] by simp
    have "\<forall>d\<in>set ?ds. d < 16" "length ?ds = 8"
      using dg by auto
    then have "unat (take_bit 4 (drop_bit ((7 - i) * 4) (of_nat (digits_value ?ds) :: uint32_t))) = ?ds ! (7 - i)"
      if "i < 8" for i
      using that by (intro nibble_of_digits) simp_all
    moreover have "?ds ! (7 - i) = dg i" if "i < 8" for i
      using that by (simp add: rev_nth)
    ultimately have "\<forall>i<8. unat (take_bit 4 (drop_bit (hex_shift bo i) (of_nat (digits_value ?ds) :: uint32_t))) = dg i"
      by (simp add: ORDER_BIG_ENDIAN hex_shift_def)
    then show ?thesis
      unfolding r v by blast
  qed
qed

section \<open>The claims\<close>

text \<open>
  C3. One draw from a nonzero Seed should be Schrage's step with the negative value
  corrected by 2147483647. At Seed 127773 the integer value is \<open>-2836\<close>: the specified
  step gives Seed 2147480811 and the draw 29931, the program leaves Seed 4294964460 (the
  value wrapped modulo \<open>2 ^ 32\<close>) and draws 62700.
\<close>

theorem random_negative_not_corrected:
  "random 127773 = (62700, 4294964460) \<and> random_spec 127773 = (29931, 2147480811)"
  by (simp add: random_eq zero_seed_guard_def accumulator_def random_spec_def)

text \<open>
  C6. For every Seed the test of line 36 is false, so the statement that adds 2147483647
  never runs: the draw is the accumulator of line 35 reduced modulo 65535, and the new
  Seed is that accumulator.
\<close>

theorem negative_branch_unreachable:
  "negative_test (accumulator (zero_seed_guard seed)) = False \<and>
   correct_negative (accumulator (zero_seed_guard seed)) = accumulator (zero_seed_guard seed) \<and>
   random seed = (accumulator (zero_seed_guard seed) mod 65535, accumulator (zero_seed_guard seed))"
  by (simp add: random_eq correct_negative_def negative_test_False)

text \<open>
  C9. A draw never computes from a zero Seed: line 34 replaces a zero Seed by the fixed
  constant, which is not zero, and leaves every other Seed as it is; the step is computed
  from the guarded value.
\<close>

theorem zero_seed_replaced:
  "zero_seed_guard seed \<noteq> 0 \<and>
   zero_seed_guard 0 = ZERO_SEED \<and> ZERO_SEED \<noteq> 0 \<and>
   random seed = random (zero_seed_guard seed) \<and>
   snd (random seed) = correct_negative (accumulator (zero_seed_guard seed))"
  by (simp add: random_def zero_seed_guard_def ZERO_SEED_def Let_def)

text \<open>
  C1. The round-trip law, for every buffer, the empty one included, and every non-empty
  key list. On the empty buffer (\<open>len = 0\<close>) with any non-empty key list \<^verbatim>\<open>Encrypt\<close>
  stops in its first \<^verbatim>\<open>Shuffle\<close>: \<^verbatim>\<open>len - 1\<close> wraps, the table loop runs and takes a
  draw modulo \<open>i + 1 = 0\<close>. So encrypting and then decrypting the empty buffer yields
  no buffer at all. (For every non-empty buffer the law holds: \<open>round_trip_nonempty\<close>.)
\<close>

theorem round_trip_empty_buffer_fails:
  "(case Encrypt [] 0 (k # ks) (length (k # ks)) seed of
      Inl e \<Rightarrow> Inl e
    | Inr (d, s) \<Rightarrow> Decrypt d 0 (k # ks) (length (k # ks)) s) = Inl DivisionByZero"
  by (simp only: Encrypt_zero sum.case)

text \<open>
  C2. On the empty buffer with a non-empty key list \<^verbatim>\<open>Encrypt\<close> and \<^verbatim>\<open>Decrypt\<close> should
  both end without error and leave the buffer empty. Both end in the division by zero of
  \<^verbatim>\<open>GenExchangeTable(0)\<close>: \<^verbatim>\<open>Encrypt\<close> in the \<^verbatim>\<open>Shuffle\<close> of its first round,
  \<^verbatim>\<open>Decrypt\<close> in the \<^verbatim>\<open>DeShuffle\<close> of its first round.
\<close>

theorem empty_buffer_division_by_zero:
  "Encrypt [] 0 (k # ks) (length (k # ks)) seed = Inl DivisionByZero \<and>
   Decrypt [] 0 (k # ks) (length (k # ks)) seed = Inl DivisionByZero"
  by (simp only: Encrypt_zero Decrypt_zero simp_thms)

text \<open>
  C4. Each group of 8 hexadecimal characters should become one subkey with the first
  character in the highest-order 4 bits. In a build for a little-endian target the first
  character lands in the lowest-order 4 bits: \<^verbatim>\<open>"F0000000"\<close> becomes 15, not 4026531840.
\<close>

theorem little_endian_first_nibble_lowest:
  "HexToUInt32 ORDER_LITTLE_ENDIAN ''F0000000'' 0 = Inr 0x0000000F \<and>
   HexToUInt32 ORDER_LITTLE_ENDIAN ''F0000000'' 0 \<noteq> Inr 0xF0000000"
proof -
  have "HexToUInt32 ORDER_LITTLE_ENDIAN ''F0000000'' 0 = Inr 0x0000000F"
    unfolding HexToUInt32_def
    by (subst HexToUInt32_loop.simps, simp add: str_at_def hex_value_def hex_shift_def)+
  then show ?thesis
    by simp
qed

text \<open>
  C4, as amended. For a group of 8 hexadecimal characters that starts at \<open>start\<close>, the
  conversion succeeds and character \<open>i\<close> of the group (\<open>i = 0, \<dots>, 7\<close>) supplies the 4
  bits at bit position \<open>hex_shift bo i\<close>: \<open>4 * (7 - i)\<close> in a big-endian build (most
  significant nibble first), \<open>4 * i\<close> in a little-endian build (least significant nibble
  first).
\<close>

theorem hex_group_nibbles:
  assumes "start + 8 \<le> length str"
    and "\<forall>k<8. hex_value (str ! (start + k)) = Some (dg k)"
  shows "\<exists>w. HexToUInt32 bo str start = Inr w \<and>
           (\<forall>i<8. unat (take_bit 4 (drop_bit (hex_shift bo i) w)) = dg i) \<and>
           hex_shift ORDER_BIG_ENDIAN 0 = 28 \<and> hex_shift ORDER_LITTLE_ENDIAN 0 = 0"
  using HexToUInt32_nibbles [OF assms, of bo] by (simp add: hex_shift_def)

theorem hex_group_nibbles_witness:
  "\<exists>w. HexToUInt32 ORDER_BIG_ENDIAN ''FF123456'' 0 = Inr w \<and>
        unat (take_bit 4 (drop_bit 28 w)) = 15 \<and> unat (take_bit 4 (drop_bit 0 w)) = 6"
proof -
  have 1: "0 + 8 \<le> length ''FF123456''"
    by simp
  have 2: "\<forall>k<8. hex_value (''FF123456'' ! (0 + k)) = Some ([15, 15, 1, 2, 3, 4, 5, 6] ! k)"
    by (auto simp: hex_value_def less8)
  from hex_group_nibbles [OF 1 2, of ORDER_BIG_ENDIAN]
  obtain w where w: "HexToUInt32 ORDER_BIG_ENDIAN ''FF123456'' 0 = Inr w"
    "\<forall>i<8. unat (take_bit 4 (drop_bit (hex_shift ORDER_BIG_ENDIAN i) w)) = [15, 15, 1, 2, 3, 4, 5, 6] ! i"
    by blast
  from w(2) have "unat (take_bit 4 (drop_bit (hex_shift ORDER_BIG_ENDIAN 0) w)) = 15"
    "unat (take_bit 4 (drop_bit (hex_shift ORDER_BIG_ENDIAN 7) w)) = 6"
    by auto
  then show ?thesis
    using w(1) by (simp add: hex_shift_def)
qed

text \<open>
  C5. \<^verbatim>\<open>DeShuffle\<close> after \<^verbatim>\<open>Shuffle\<close> from the same Seed should restore every buffer. On
  the empty buffer neither call returns a buffer: each builds its table first, and
  \<^verbatim>\<open>GenExchangeTable(0)\<close> divides by zero. (For every non-empty buffer \<^verbatim>\<open>DeShuffle\<close>
  restores what \<^verbatim>\<open>Shuffle\<close> produced: \<open>Shuffle_ok\<close>.)
\<close>

theorem Shuffle_empty_buffer_fails:
  "Shuffle [] 0 seed = Inl DivisionByZero \<and> DeShuffle [] 0 seed = Inl DivisionByZero"
  by (simp only: Shuffle_zero DeShuffle_zero simp_thms)

text \<open>
  C7. For a buffer length \<open>n \<ge> 1\<close> (a \<^verbatim>\<open>size_t\<close>) and every Seed the table is built,
  with \<open>n - 1\<close> draws; it has exactly the positions \<open>0, \<dots>, n - 2\<close>, and the entry at
  position \<open>j\<close> is draw \<open>j\<close> modulo \<open>i + 1\<close> for the countdown index \<open>i = n - 1 - j\<close>,
  so it lies in \<open>[0, n - 1 - j]\<close>.
\<close>

theorem exchange_table_valid:
  assumes "1 \<le> n" and "n < SIZE_MOD"
  shows "\<exists>t. GenExchangeTable n seed = Inr (t, seed_after (n - 1) seed) \<and>
           dom t = {..<n - 1} \<and> card (dom t) = n - 1 \<and>
           (\<forall>j<n - 1. \<exists>e. t j = Some e \<and> e \<le> n - 1 - j \<and>
                 e = unat (draws (n - 1) seed ! j) mod (n - 1 - j + 1))"
proof -
  let ?t = "\<lambda>j. if j < n - 1 then Some (unat (draws (n - 1) seed ! j) mod (n - j)) else None"
  have gen: "GenExchangeTable n seed = Inr (?t, seed_after (n - 1) seed)"
    using assms by (intro GenExchangeTable_result) simp_all
  have d: "dom ?t = {..<n - 1}"
    by (auto simp: dom_def)
  have e: "unat (draws (n - 1) seed ! j) mod (n - j) \<le> n - 1 - j" "n - j = n - 1 - j + 1"
    if "j < n - 1" for j
  proof -
    from that show eq: "n - j = n - 1 - j + 1"
      by simp
    have "unat (draws (n - 1) seed ! j) mod (n - 1 - j + 1) < n - 1 - j + 1"
      by (rule mod_less_divisor) simp
    then show "unat (draws (n - 1) seed ! j) mod (n - j) \<le> n - 1 - j"
      unfolding eq by simp
  qed
  have "\<forall>j<n - 1. \<exists>e. ?t j = Some e \<and> e \<le> n - 1 - j \<and>
            e = unat (draws (n - 1) seed ! j) mod (n - 1 - j + 1)"
    using e by simp
  then show ?thesis
    unfolding gen using d by (intro exI [of _ ?t]) simp
qed

theorem exchange_table_valid_witness:
  "(1::nat) \<le> 5 \<and> 5 < SIZE_MOD \<and>
   (\<exists>t. GenExchangeTable 5 77 = Inr (t, seed_after 4 77) \<and> dom t = {..<4} \<and>
        (\<exists>e. t 0 = Some e \<and> e \<le> 4) \<and> (\<exists>e. t 3 = Some e \<and> e \<le> 1))"
proof -
  have 1: "(1::nat) \<le> 5" and 2: "5 < SIZE_MOD"
    by (simp_all add: SIZE_MOD_def)
  from exchange_table_valid [OF 1 2, of 77]
  obtain t where t: "GenExchangeTable 5 77 = Inr (t, seed_after (5 - 1) 77)" "dom t = {..<5 - 1}"
    "\<forall>j<5 - 1. \<exists>e. t j = Some e \<and> e \<le> 5 - 1 - j \<and> e = unat (draws (5 - 1) 77 ! j) mod (5 - 1 - j + 1)"
    by blast
  from t(3) have "\<exists>e. t 0 = Some e \<and> e \<le> 4" "\<exists>e. t 3 = Some e \<and> e \<le> 1"
    by fastforce+
  then show ?thesis
    using 1 2 t(1,2) by auto
qed

text \<open>
  C8. \<^verbatim>\<open>Code\<close> takes one draw per byte, in the order of the positions, and adds the mask
  of draw \<open>i\<close> to byte \<open>i\<close> modulo 256; the mask is the draw modulo 255, at most 254.
  \<^verbatim>\<open>DeCode\<close> subtracts the same masks from the same Seed, and so undoes \<^verbatim>\<open>Code\<close>.
\<close>

theorem Code_masks:
  "Code data (length data) seed =
     Inr (map2 (\<lambda>b r. b + code_mask r) data (draws (length data) seed),
          seed_after (length data) seed) \<and>
   DeCode data (length data) seed =
     Inr (map2 (\<lambda>b r. b - code_mask r) data (draws (length data) seed),
          seed_after (length data) seed) \<and>
   DeCode (map2 (\<lambda>b r. b + code_mask r) data (draws (length data) seed)) (length data) seed =
     Inr (data, seed_after (length data) seed) \<and>
   unat (code_mask r) = unat r mod 255 \<and> unat (code_mask r) \<le> 254 \<and>
   unat (b + code_mask r) = (unat b + unat (code_mask r)) mod 256"
proof -
  let ?c = "map2 (\<lambda>b r. b + code_mask r) data (draws (length data) seed)"
  have l: "length ?c = length data"
    by simp
  have "DeCode ?c (length ?c) seed = Inr (data, seed_after (length ?c) seed)"
    unfolding DeCode_result using unmask_mask [of "draws (length data) seed" data] by simp
  then have undo: "DeCode ?c (length data) seed = Inr (data, seed_after (length data) seed)"
    unfolding l .
  have "unat (r mod 255) < 255"
    using word_mod_less_divisor [of 255 r] by (simp add: word_less_nat_alt)
  then have m: "unat (code_mask r) = unat r mod 255"
    by (simp add: code_mask_def unsigned_ucast_eq take_bit_eq_mod unat_mod_distrib)
  have a: "unat (b + code_mask r) = (unat b + unat (code_mask r)) mod 256"
    by (simp add: unat_word_ariths)
  show ?thesis
    using Code_result DeCode_result undo m mask_bound a by blast
qed

text \<open>
  C10. For a buffer of length \<open>n \<ge> 1\<close> (a \<^verbatim>\<open>size_t\<close>) and every Seed, \<^verbatim>\<open>Shuffle\<close> and
  \<^verbatim>\<open>DeShuffle\<close> each return a buffer of the same length with the same multiset of
  bytes.
\<close>

theorem Shuffle_DeShuffle_rearrange:
  assumes "data \<noteq> []" and "length data < SIZE_MOD"
  shows "(\<exists>d s. Shuffle data (length data) seed = Inr (d, s) \<and>
            length d = length data \<and> mset d = mset data) \<and>
         (\<exists>d s. DeShuffle data (length data) seed = Inr (d, s) \<and>
            length d = length data \<and> mset d = mset data)"
proof -
  have "0 < length data"
    using assms(1) by simp
  then show ?thesis
    using Shuffle_ok [of data seed] DeShuffle_ok [of data seed] assms(2) by blast
qed

theorem Shuffle_DeShuffle_rearrange_witness:
  "[1, 2, 3, 4, 5 :: byte] \<noteq> [] \<and> length [1, 2, 3, 4, 5 :: byte] < SIZE_MOD \<and>
   (\<exists>d s. Shuffle [1, 2, 3, 4, 5] 5 77 = Inr (d, s) \<and> mset d = mset [1, 2, 3, 4, 5]) \<and>
   (\<exists>d s. DeShuffle [1, 2, 3, 4, 5] 5 77 = Inr (d, s) \<and> mset d = mset [1, 2, 3, 4, 5])"
proof -
  have 1: "[1, 2, 3, 4, 5 :: byte] \<noteq> []" and 2: "length [1, 2, 3, 4, 5 :: byte] < SIZE_MOD"
    by (simp_all add: SIZE_MOD_def)
  have l: "length [1, 2, 3, 4, 5 :: byte] = 5"
    by simp
  from Shuffle_DeShuffle_rearrange [OF 1 2, of 77, unfolded l] show ?thesis
    using 1 2 by blast
qed

end
